theory Spec2Isabelle
  imports Main "HOL-Library.Word"
begin

unbundle bit_operations_syntax

section \<open>Data model of package keybind\<close>

text \<open>
  Go's \<open>byte\<close>, \<open>uint16\<close> and \<open>xgb.Keysym\<close> (a \<open>uint32\<close>) are machine words; Go's
  \<open>int\<close> is modelled by \<open>int\<close>: every \<open>int\<close> the package computes is built from at most
  three bytes by one subtraction, one multiplication and one addition, so it stays far
  inside the range of a 32-bit integer.
\<close>

type_synonym byte = "8 word"
type_synonym uint16 = "16 word"
type_synonym Keysym = "32 word"

text \<open>The run-time panics the package can raise, and the two it raises itself in \<open>mapsGet\<close>
  (each carries the error value its message formats).\<close>

datatype 'e panic =
    IndexOutOfRange
  | SliceOutOfRange
  | DivideByZero
  | CouldNotGetKeyboardMapping "'e option"
  | CouldNotGetModifierMapping "'e option"

record GetKeyboardMappingReply =
  KeysymsPerKeycode :: byte
  Keysyms :: "Keysym list"

record GetModifierMappingReply =
  KeycodesPerModifier :: byte
  Keycodes :: "byte list"

text \<open>
  What the package reads through \<open>xu\<close>: the keycode range of the connection setup
  (\<open>xu.Conn().Setup\<close>), the two server queries of the connection, whose Go results
  \<open>(reply, err)\<close> are a sum (\<open>Inl\<close> the error), and the key map and modifier map stored by
  \<open>Initialize\<close> (\<open>xu.KeyMapGet()\<close>, \<open>xu.ModMapGet()\<close>). The resolver functions require that
  \<open>Initialize\<close> has been called, so both maps are present.
\<close>

record 'e XUtil =
  MinKeycode :: byte
  MaxKeycode :: byte
  GetKeyboardMapping :: "byte \<Rightarrow> byte \<Rightarrow> 'e + GetKeyboardMappingReply"
  GetModifierMapping :: "'e + GetModifierMappingReply"
  KeyMap :: GetKeyboardMappingReply
  ModMap :: GetModifierMappingReply

definition minMaxKeycodeGet :: "'e XUtil \<Rightarrow> byte \<times> byte" where
  "minMaxKeycodeGet xu = (MinKeycode xu, MaxKeycode xu)"

section \<open>keysymGet\<close>

text \<open>Indexing a Go slice panics when the index is negative or not below the length.\<close>

definition keysymGet :: "'e XUtil \<Rightarrow> byte \<Rightarrow> byte \<Rightarrow> 'e panic + Keysym" where
  "keysymGet xu keycode column =
     (let (min, _) = minMaxKeycodeGet xu;
          keyMap = KeyMap xu;
          i = (uint keycode - uint min) * uint (KeysymsPerKeycode keyMap) + uint column
      in if 0 \<le> i \<and> i < int (length (Keysyms keyMap))
         then Inr (Keysyms keyMap ! nat i)
         else Inl IndexOutOfRange)"

text \<open>
  The key map of the data model: the keycode range is not empty and the keysym table
  holds \<open>KeysymsPerKeycode\<close> entries for each keycode of the range.
\<close>

definition wf_keymap :: "'e XUtil \<Rightarrow> bool" where
  "wf_keymap xu \<longleftrightarrow>
     MinKeycode xu \<le> MaxKeycode xu \<and>
     int (length (Keysyms (KeyMap xu))) =
       (uint (MaxKeycode xu) - uint (MinKeycode xu) + 1) * uint (KeysymsPerKeycode (KeyMap xu))"

text \<open>The index of the spec's KeyCodeMap: \<open>(keycode - min) * columnsPerCode + column\<close>.\<close>

definition keymap_index :: "'e XUtil \<Rightarrow> byte \<Rightarrow> byte \<Rightarrow> int" where
  "keymap_index xu keycode column =
     (uint keycode - uint (MinKeycode xu)) * uint (KeysymsPerKeycode (KeyMap xu)) + uint column"

text \<open>A small key map for the concrete instances: keycodes 8 to 10, two columns; and a
  modifier map of two slots per row.\<close>

definition ex_keymap :: GetKeyboardMappingReply where
  "ex_keymap = \<lparr>KeysymsPerKeycode = 2, Keysyms = [0x6A, 0x4A, 0, 0xFF0D, 0xFF0D, 0x6A]\<rparr>"

definition ex_modmap :: GetModifierMappingReply where
  "ex_modmap = \<lparr>KeycodesPerModifier = 2,
     Keycodes = [9, 8, 0, 0, 10, 0, 0, 0, 0, 0, 0, 0, 0, 8, 0, 0]\<rparr>"

definition ex_xu :: "unit XUtil" where
  "ex_xu = \<lparr>MinKeycode = 8, MaxKeycode = 10,
     GetKeyboardMapping = (\<lambda>first count. Inr ex_keymap),
     GetModifierMapping = Inr ex_modmap,
     KeyMap = ex_keymap, ModMap = ex_modmap\<rparr>"

section \<open>keycodeGet\<close>

text \<open>
  The inner loop of \<open>keycodeGet\<close>, from column \<open>c\<close> on: \<open>Inr True\<close> when the loop body
  returns \<open>byte(kc)\<close>, \<open>Inr False\<close> when the loop ends without a match. The counter is a
  byte; it stays below \<open>KeysymsPerKeycode\<close>, so \<open>c++\<close> does not wrap.
\<close>

function keycodeGet_columns :: "'e XUtil \<Rightarrow> Keysym \<Rightarrow> int \<Rightarrow> byte \<Rightarrow> 'e panic + bool" where
  "keycodeGet_columns xu keysym kc c =
     (if c < KeysymsPerKeycode (KeyMap xu) then
        (case keysymGet xu (word_of_int kc) c of
           Inl p \<Rightarrow> Inl p
         | Inr s \<Rightarrow> if keysym = s then Inr True
                    else keycodeGet_columns xu keysym kc (c + 1))
      else Inr False)"
  by pat_completeness auto
termination
proof (relation "measure (\<lambda>(xu, keysym, kc, c). unat (KeysymsPerKeycode (KeyMap xu)) - unat c)")
  show "wf (measure (\<lambda>(xu :: 'e XUtil, keysym :: Keysym, kc :: int, c :: byte).
              unat (KeysymsPerKeycode (KeyMap xu)) - unat c))"
    by simp
next
  fix xu :: "'e XUtil" and keysym :: Keysym and kc :: int and c :: byte and x2 :: Keysym
  assume "c < KeysymsPerKeycode (KeyMap xu)"
  then have "unat (c + 1) = Suc (unat c)" "unat c < unat (KeysymsPerKeycode (KeyMap xu))"
    by unat_arith+
  then show "((xu, keysym, kc, c + 1), (xu, keysym, kc, c))
          \<in> measure (\<lambda>(xu, keysym, kc, c). unat (KeysymsPerKeycode (KeyMap xu)) - unat c)"
    by simp
qed

text \<open>The outer loop, from keycode \<open>kc\<close> (a Go \<open>int\<close>) up to \<open>int(max)\<close>.\<close>

function keycodeGet_loop :: "'e XUtil \<Rightarrow> Keysym \<Rightarrow> int \<Rightarrow> 'e panic + byte" where
  "keycodeGet_loop xu keysym kc =
     (if kc \<le> uint (MaxKeycode xu) then
        (case keycodeGet_columns xu keysym kc 0 of
           Inl p \<Rightarrow> Inl p
         | Inr True \<Rightarrow> Inr (word_of_int kc)
         | Inr False \<Rightarrow> keycodeGet_loop xu keysym (kc + 1))
      else Inr 0)"
  by pat_completeness auto
termination
  by (relation "measure (\<lambda>(xu, keysym, kc). nat (uint (MaxKeycode xu) + 1 - kc))") auto

definition keycodeGet :: "'e XUtil \<Rightarrow> Keysym \<Rightarrow> 'e panic + byte" where
  "keycodeGet xu keysym =
     (let (min, max) = minMaxKeycodeGet xu
      in keycodeGet_loop xu keysym (uint min))"

section \<open>lookupString and ParseString\<close>

text \<open>
  The package-level tables \<open>keysyms\<close> and \<open>strKeysyms\<close> are declared in a file of the
  package that is not part of the sources at hand, so they are parameters. The three
  functions of Go's package \<open>strings\<close> that \<open>lookupString\<close> and \<open>ParseString\<close> call are
  parameters as well: on ASCII strings they are the functions \<open>ascii_ToLower\<close>,
  \<open>ascii_ToUpper\<close> and \<open>ascii_Title\<close> below; on other strings they apply the Unicode case
  tables to the UTF-8 decoded runes.
\<close>

record env =
  strings_ToLower :: "string \<Rightarrow> string"
  strings_ToUpper :: "string \<Rightarrow> string"
  strings_Title :: "string \<Rightarrow> string"
  keysyms :: "string \<rightharpoonup> Keysym"
  strKeysyms :: "Keysym \<rightharpoonup> string"

text \<open>Go's two-result map index \<open>v, ok := m[k]\<close>: the zero value and \<open>false\<close> for a missing key.\<close>

definition map_index2 :: "('k \<rightharpoonup> Keysym) \<Rightarrow> 'k \<Rightarrow> Keysym \<times> bool" where
  "map_index2 m k = (case m k of None \<Rightarrow> (0, False) | Some v \<Rightarrow> (v, True))"

text \<open>The first part of \<open>lookupString\<close>, the spec's KeySymLookup: the four map lookups.\<close>

definition KeySymLookup :: "env \<Rightarrow> string \<Rightarrow> Keysym \<times> bool" where
  "KeySymLookup E str =
     (let (sym, ok) = map_index2 (keysyms E) str;
          (sym, ok) = (if \<not> ok then map_index2 (keysyms E) (strings_Title E str) else (sym, ok));
          (sym, ok) = (if \<not> ok then map_index2 (keysyms E) (strings_ToLower E str) else (sym, ok));
          (sym, ok) = (if \<not> ok then map_index2 (keysyms E) (strings_ToUpper E str) else (sym, ok))
      in (sym, ok))"

definition lookupString :: "env \<Rightarrow> 'e XUtil \<Rightarrow> string \<Rightarrow> 'e panic + byte" where
  "lookupString E xu str =
     (let (sym, ok) = KeySymLookup E str
      in if \<not> ok then Inr 0 else keycodeGet xu sym)"

text \<open>
  Modelled from the spec: the constants \<open>xgb.ModMask...\<close> belong to the X binding, which is
  not part of the sources at hand. The spec's ModifierMask is a bit set over Shift, Lock,
  Control, Mod1 to Mod5 and Any; the values are the ones the X11 core protocol gives to
  these bits.
\<close>

definition ModMaskShift :: uint16 where "ModMaskShift = 1"
definition ModMaskLock :: uint16 where "ModMaskLock = 2"
definition ModMaskControl :: uint16 where "ModMaskControl = 4"
definition ModMask1 :: uint16 where "ModMask1 = 8"
definition ModMask2 :: uint16 where "ModMask2 = 16"
definition ModMask3 :: uint16 where "ModMask3 = 32"
definition ModMask4 :: uint16 where "ModMask4 = 64"
definition ModMask5 :: uint16 where "ModMask5 = 128"
definition ModMaskAny :: uint16 where "ModMaskAny = 32768"

definition modifiers :: "uint16 list" where
  "modifiers = [ModMaskShift, ModMaskLock, ModMaskControl,
                ModMask1, ModMask2, ModMask3, ModMask4, ModMask5,
                ModMaskAny]"

text \<open>\<open>strings.Split(str, "-")\<close>: the pieces of \<open>str\<close> between the hyphens; there is always
  at least one piece, and a piece may be empty.\<close>

fun Split_hyphen :: "string \<Rightarrow> string list" where
  "Split_hyphen [] = [[]]"
| "Split_hyphen (c # cs) =
     (if c = CHR ''-'' then [] # Split_hyphen cs
      else (case Split_hyphen cs of
              [] \<Rightarrow> [[c]]
            | part # parts \<Rightarrow> (c # part) # parts))"

text \<open>The nine named cases of the \<open>switch\<close> in \<open>ParseString\<close>, on the lower-cased token:
  the mask the case ORs into \<open>mods\<close>, and \<open>None\<close> for the \<open>default\<close> case.\<close>

definition switch_modifier :: "string \<Rightarrow> uint16 option" where
  "switch_modifier lower =
     (if lower = ''shift'' then Some ModMaskShift
      else if lower = ''lock'' then Some ModMaskLock
      else if lower = ''control'' then Some ModMaskControl
      else if lower = ''mod1'' then Some ModMask1
      else if lower = ''mod2'' then Some ModMask2
      else if lower = ''mod3'' then Some ModMask3
      else if lower = ''mod4'' then Some ModMask4
      else if lower = ''mod5'' then Some ModMask5
      else if lower = ''any'' then Some ModMaskAny
      else None)"

fun ParseString_loop ::
  "env \<Rightarrow> 'e XUtil \<Rightarrow> string list \<Rightarrow> uint16 \<Rightarrow> byte \<Rightarrow> 'e panic + (uint16 \<times> byte)" where
  "ParseString_loop E xu [] mods kc = Inr (mods, kc)"
| "ParseString_loop E xu (part # parts) mods kc =
     (case switch_modifier (strings_ToLower E part) of
        Some m \<Rightarrow> ParseString_loop E xu parts (mods OR m) kc
      | None \<Rightarrow>
          if kc = 0 then
            (case lookupString E xu part of
               Inl p \<Rightarrow> Inl p
             | Inr kc' \<Rightarrow> ParseString_loop E xu parts mods kc')
          else ParseString_loop E xu parts mods kc)"

text \<open>The text \<open>log.Printf\<close> is given when \<open>kc = 0\<close> (the logger's own prefix left out).\<close>

definition ParseString_warning :: "string \<Rightarrow> string" where
  "ParseString_warning str =
     ''We could not find a valid keycode in the string '' @ [CHR 0x27] @ str @ [CHR 0x27]
     @ ''. Things probably will not work right.'' @ [CHR 0x0A]"

text \<open>\<open>ParseString\<close> returns \<open>(mods, kc)\<close>; the third component is what it has logged.\<close>

definition ParseString ::
  "env \<Rightarrow> 'e XUtil \<Rightarrow> string \<Rightarrow> 'e panic + (uint16 \<times> byte \<times> string list)" where
  "ParseString E xu str =
     (case ParseString_loop E xu (Split_hyphen str) 0 0 of
        Inl p \<Rightarrow> Inl p
      | Inr (mods, kc) \<Rightarrow>
          Inr (mods, kc, if kc = 0 then [ParseString_warning str] else []))"

subsection \<open>Go's case functions on ASCII strings\<close>

definition ascii_is_upper :: "char \<Rightarrow> bool" where
  "ascii_is_upper c \<longleftrightarrow> 65 \<le> (of_char c :: nat) \<and> (of_char c :: nat) \<le> 90"

definition ascii_is_lower :: "char \<Rightarrow> bool" where
  "ascii_is_lower c \<longleftrightarrow> 97 \<le> (of_char c :: nat) \<and> (of_char c :: nat) \<le> 122"

definition ascii_is_digit :: "char \<Rightarrow> bool" where
  "ascii_is_digit c \<longleftrightarrow> 48 \<le> (of_char c :: nat) \<and> (of_char c :: nat) \<le> 57"

definition ascii_to_lower :: "char \<Rightarrow> char" where
  "ascii_to_lower c = (if ascii_is_upper c then char_of (of_char c + (32 :: nat)) else c)"

definition ascii_to_upper :: "char \<Rightarrow> char" where
  "ascii_to_upper c = (if ascii_is_lower c then char_of (of_char c - (32 :: nat)) else c)"

definition ascii_ToLower :: "string \<Rightarrow> string" where
  "ascii_ToLower s = map ascii_to_lower s"

definition ascii_ToUpper :: "string \<Rightarrow> string" where
  "ascii_ToUpper s = map ascii_to_upper s"

text \<open>
  \<open>strings.Title\<close> maps to title case every letter that begins a word and leaves every
  other character as it is: a letter begins a word when the character before it is a
  separator, and the string starts after a space. ASCII letters, digits and the underscore
  are not separators; every other ASCII character is.
\<close>

definition ascii_isSeparator :: "char \<Rightarrow> bool" where
  "ascii_isSeparator c \<longleftrightarrow>
     \<not> (ascii_is_digit c \<or> ascii_is_lower c \<or> ascii_is_upper c \<or> c = CHR ''_'')"

fun ascii_Title_from :: "char \<Rightarrow> string \<Rightarrow> string" where
  "ascii_Title_from prev [] = []"
| "ascii_Title_from prev (r # s) =
     (if ascii_isSeparator prev then ascii_to_upper r else r) # ascii_Title_from r s"

definition ascii_Title :: "string \<Rightarrow> string" where
  "ascii_Title s = ascii_Title_from CHR '' '' s"

definition ascii_env :: "(string \<rightharpoonup> Keysym) \<Rightarrow> (Keysym \<rightharpoonup> string) \<Rightarrow> env" where
  "ascii_env names syms =
     \<lparr>strings_ToLower = ascii_ToLower, strings_ToUpper = ascii_ToUpper,
      strings_Title = ascii_Title, keysyms = names, strKeysyms = syms\<rparr>"

section \<open>modGet\<close>

text \<open>\<open>modifiers[n]\<close>: indexing the nine-element table panics from index 9 on.\<close>

definition modifiers_index :: "nat \<Rightarrow> 'e panic + uint16" where
  "modifiers_index n =
     (if n < length modifiers then Inr (modifiers ! n) else Inl IndexOutOfRange)"

text \<open>
  The loop of \<open>modGet\<close>. Its counter \<open>i\<close> is a byte, compared as an \<open>int\<close> with the length
  of the slot table, and \<open>i++\<close> wraps from 255 to 0; so the loop need not end, and the
  result is an option: \<open>None\<close> when \<open>modGet\<close> does not return. The byte division panics
  when \<open>KeycodesPerModifier\<close> is 0.
\<close>

partial_function (option) modGet_loop ::
  "'e XUtil \<Rightarrow> byte \<Rightarrow> byte \<Rightarrow> ('e panic + uint16) option" where
  "modGet_loop xu keycode i =
     (if uint i < int (length (Keycodes (ModMap xu))) then
        (if Keycodes (ModMap xu) ! unat i = keycode then
           (if KeycodesPerModifier (ModMap xu) = 0 then Some (Inl DivideByZero)
            else Some (modifiers_index (unat (i div KeycodesPerModifier (ModMap xu)))))
         else modGet_loop xu keycode (i + 1))
      else Some (Inr 0))"

declare modGet_loop.simps [code]

definition modGet :: "'e XUtil \<Rightarrow> byte \<Rightarrow> ('e panic + uint16) option" where
  "modGet xu keycode = modGet_loop xu keycode 0"

text \<open>The modifier map of the data model: eight rows of \<open>KeycodesPerModifier\<close> slots.\<close>

definition wf_modmap :: "'e XUtil \<Rightarrow> bool" where
  "wf_modmap xu \<longleftrightarrow>
     length (Keycodes (ModMap xu)) = 8 * unat (KeycodesPerModifier (ModMap xu))"

text \<open>
  The spec's ModifierForKeyCode: the first slot, in ascending order, that holds the
  keycode; its index divided by \<open>keycodesPerModifier\<close> is the row, mapped through the fixed
  order; 0 when no slot holds the keycode.
\<close>

definition ModifierForKeyCode_spec :: "'e XUtil \<Rightarrow> byte \<Rightarrow> uint16" where
  "ModifierForKeyCode_spec xu keycode =
     (case find (\<lambda>i. Keycodes (ModMap xu) ! i = keycode)
                [0..<length (Keycodes (ModMap xu))] of
        None \<Rightarrow> 0
      | Some i \<Rightarrow> modifiers ! (i div unat (KeycodesPerModifier (ModMap xu))))"

text \<open>Two modifier maps of 32 and 33 keycodes per modifier: 256 unbound slots, and 256
  slots bound to keycode 9 followed by 8 unbound ones.\<close>

definition wide_xu :: "unit XUtil" where
  "wide_xu = ex_xu\<lparr>ModMap :=
     \<lparr>KeycodesPerModifier = 32, Keycodes = replicate 256 0\<rparr>\<rparr>"

definition full_xu :: "unit XUtil" where
  "full_xu = ex_xu\<lparr>ModMap :=
     \<lparr>KeycodesPerModifier = 33, Keycodes = replicate 256 9 @ replicate 8 0\<rparr>\<rparr>"

section \<open>mapsGet\<close>

text \<open>
  Both queries are sent before either error is looked at. The panic for a failed modifier
  query formats \<open>keyErr\<close>, which is \<open>nil\<close> at that point.
\<close>

definition mapsGet ::
  "'e XUtil \<Rightarrow> 'e panic + (GetKeyboardMappingReply \<times> GetModifierMappingReply)" where
  "mapsGet xu =
     (let (min, max) = minMaxKeycodeGet xu;
          newKeymap = GetKeyboardMapping xu min (max - min + 1);
          newModmap = GetModifierMapping xu
      in case newKeymap of
           Inl keyErr \<Rightarrow> Inl (CouldNotGetKeyboardMapping (Some keyErr))
         | Inr keymap \<Rightarrow>
             (case newModmap of
                Inl modErr \<Rightarrow> Inl (CouldNotGetModifierMapping None)
              | Inr modmap \<Rightarrow> Inr (keymap, modmap)))"

text \<open>\<open>updateMaps\<close>, and \<open>Initialize\<close> after it has connected the callback.\<close>

definition updateMaps :: "'e XUtil \<Rightarrow> 'e panic + 'e XUtil" where
  "updateMaps xu =
     (case mapsGet xu of
        Inl p \<Rightarrow> Inl p
      | Inr (keyMap, modMap) \<Rightarrow> Inr (xu\<lparr>KeyMap := keyMap, ModMap := modMap\<rparr>))"

definition failing_xu :: "string XUtil" where
  "failing_xu = \<lparr>MinKeycode = 8, MaxKeycode = 10,
     GetKeyboardMapping = (\<lambda>first count. Inr ex_keymap),
     GetModifierMapping = Inl ''BadImplementation'',
     KeyMap = ex_keymap, ModMap = ex_modmap\<rparr>"

section \<open>XModMap\<close>








subsection \<open>The dump as the spec describes it\<close>

text \<open>The spec's KeyCodeMap, indexed by \<open>(keycode - min) * columnsPerCode + column\<close>.\<close>

definition KeyCodeMap :: "'e XUtil \<Rightarrow> int \<Rightarrow> nat \<Rightarrow> Keysym" where
  "KeyCodeMap xu keycode column =
     Keysyms (KeyMap xu) !
       nat ((keycode - uint (MinKeycode xu)) * uint (KeysymsPerKeycode (KeyMap xu))
            + int column)"








section \<open>The resolver as the spec describes it\<close>

text \<open>
  KeyCodeForSymbol: the keycodes of \<open>[min, max]\<close> in ascending order and, within a keycode,
  the columns in ascending order; the keycode of the first entry that equals the symbol,
  0 when there is none.
\<close>

definition KeyCodeForSymbol_spec :: "'e XUtil \<Rightarrow> Keysym \<Rightarrow> byte" where
  "KeyCodeForSymbol_spec xu keysym =
     (case find (\<lambda>(kc, col). KeyCodeMap xu kc col = keysym)
             (List.product [uint (MinKeycode xu)..uint (MaxKeycode xu)]
                           [0..<unat (KeysymsPerKeycode (KeyMap xu))]) of
        None \<Rightarrow> 0
      | Some (kc, col) \<Rightarrow> word_of_int kc)"

text \<open>A token is a modifier token when its lower-cased form is one of the nine names;
  the mask of a token list ORs the bits of its modifier tokens.\<close>

definition is_modifier_token :: "env \<Rightarrow> string \<Rightarrow> bool" where
  "is_modifier_token E part \<longleftrightarrow> switch_modifier (strings_ToLower E part) \<noteq> None"

definition token_mask :: "env \<Rightarrow> string \<Rightarrow> uint16" where
  "token_mask E part =
     (case switch_modifier (strings_ToLower E part) of None \<Rightarrow> 0 | Some m \<Rightarrow> m)"

definition mask_of :: "env \<Rightarrow> string list \<Rightarrow> uint16" where
  "mask_of E parts = fold (\<lambda>part mods. mods OR token_mask E part) parts 0"

text \<open>The first token that is not a modifier token, when there is one.\<close>

definition first_key_token :: "env \<Rightarrow> string list \<Rightarrow> string option" where
  "first_key_token E parts = find (\<lambda>part. \<not> is_modifier_token E part) parts"

text \<open>The four forms of a name in the order \<open>lookupString\<close> tries them.\<close>

definition lookup_forms :: "env \<Rightarrow> string \<Rightarrow> string list" where
  "lookup_forms E str =
     [str, strings_Title E str, strings_ToLower E str, strings_ToUpper E str]"

text \<open>Two symbol tables: one holding only the name Return, one for the key map above.\<close>

definition return_env :: env where
  "return_env = ascii_env [''Return'' \<mapsto> 0xFF0D] [0xFF0D \<mapsto> ''Return'']"

definition ex_env :: env where
  "ex_env = ascii_env [''Return'' \<mapsto> 0xFF0D, ''j'' \<mapsto> 0x6A, ''J'' \<mapsto> 0x4A, ''F1'' \<mapsto> 0xFFBE]
                      [0xFF0D \<mapsto> ''Return'', 0x6A \<mapsto> ''j'', 0x4A \<mapsto> ''J'', 0xFFBE \<mapsto> ''F1'']"

text \<open>A row of the key map holds a symbol when one of its columns does.\<close>

definition row_holds :: "'e XUtil \<Rightarrow> Keysym \<Rightarrow> int \<Rightarrow> bool" where
  "row_holds xu keysym kc \<longleftrightarrow>
     (\<exists>col \<in> set [0..<unat (KeysymsPerKeycode (KeyMap xu))]. KeyCodeMap xu kc col = keysym)"

text \<open>What \<open>modGet\<close> returns at a matching slot of index \<open>j\<close>: the byte division and the
  index into the table of modifiers.\<close>

definition modGet_row :: "'e XUtil \<Rightarrow> nat \<Rightarrow> 'e panic + uint16" where
  "modGet_row xu j =
     (if KeycodesPerModifier (ModMap xu) = 0 then Inl DivideByZero
      else modifiers_index (j div unat (KeycodesPerModifier (ModMap xu))))"

section \<open>Properties of keysymGet\<close>

lemma wf_keymap_ex_xu: "wf_keymap ex_xu"
  by (simp add: wf_keymap_def ex_xu_def ex_keymap_def)

lemma keymap_index_bounds:
  assumes wf: "wf_keymap xu"
    and lo: "MinKeycode xu \<le> keycode" and hi: "keycode \<le> MaxKeycode xu"
    and col: "column < KeysymsPerKeycode (KeyMap xu)"
  shows "0 \<le> keymap_index xu keycode column"
    and "keymap_index xu keycode column < int (length (Keysyms (KeyMap xu)))"
proof -
  let ?d = "uint keycode - uint (MinKeycode xu)"
  let ?n = "uint (KeysymsPerKeycode (KeyMap xu))"
  let ?m = "uint (MaxKeycode xu) - uint (MinKeycode xu)"
  have d0: "0 \<le> ?d" using lo by (simp add: word_le_def)
  have dm: "?d \<le> ?m" using hi by (simp add: word_le_def)
  have c0: "0 \<le> uint column" by simp
  have cn: "uint column < ?n" using col by (simp add: word_less_def)
  have n0: "0 \<le> ?n" by simp
  show "0 \<le> keymap_index xu keycode column"
    unfolding keymap_index_def using d0 n0 c0 by simp
  have "?d * ?n + uint column < ?d * ?n + ?n" using cn by simp
  also have "\<dots> = (?d + 1) * ?n" by (simp add: algebra_simps)
  also have "\<dots> \<le> (?m + 1) * ?n" using dm n0 by (intro mult_right_mono) simp_all
  finally show "keymap_index xu keycode column < int (length (Keysyms (KeyMap xu)))"
    using wf unfolding keymap_index_def wf_keymap_def by simp
qed

lemma keysymGet_in_range:
  assumes "wf_keymap xu" "MinKeycode xu \<le> keycode" "keycode \<le> MaxKeycode xu"
    and "column < KeysymsPerKeycode (KeyMap xu)"
  shows "keysymGet xu keycode column =
           Inr (Keysyms (KeyMap xu) ! nat (keymap_index xu keycode column))"
  using keymap_index_bounds [OF assms]
  by (simp add: keysymGet_def minMaxKeycodeGet_def keymap_index_def Let_def)





section \<open>Properties of keycodeGet\<close>


lemma KeyCodeMap_keysymGet:
  assumes "wf_keymap xu" "MinKeycode xu \<le> keycode" "keycode \<le> MaxKeycode xu"
    and "column < KeysymsPerKeycode (KeyMap xu)"
  shows "keysymGet xu keycode column = Inr (KeyCodeMap xu (uint keycode) (unat column))"
  using keysymGet_in_range [OF assms]
  by (simp add: KeyCodeMap_def keymap_index_def)

lemma byte_of_int_range:
  assumes "uint (lo :: byte) \<le> kc" "kc \<le> uint (hi :: byte)"
  shows "uint (word_of_int kc :: byte) = kc"
    and "lo \<le> (word_of_int kc :: byte)" and "(word_of_int kc :: byte) \<le> hi"
proof -
  have "0 \<le> kc" using assms(1) uint_ge_0 [of lo] by linarith
  moreover have "kc < 2 ^ 8" using assms(2) uint_bounded [of hi] by simp
  ultimately show u: "uint (word_of_int kc :: byte) = kc"
    by (simp add: uint_word_of_int)
  show "lo \<le> (word_of_int kc :: byte)" "(word_of_int kc :: byte) \<le> hi"
    using assms u by (simp_all add: word_le_def)
qed

lemma byte_less_Suc: "(c :: byte) < n \<Longrightarrow> unat (c + 1) = Suc (unat c)"
  by unat_arith

text \<open>The inner loop looks at the columns from \<open>c\<close> on.\<close>

lemma keycodeGet_columns_scan:
  assumes "wf_keymap xu"
    and "uint (MinKeycode xu) \<le> kc" and "kc \<le> uint (MaxKeycode xu)"
  shows "keycodeGet_columns xu keysym kc c =
           Inr (\<exists>col \<in> set [unat c..<unat (KeysymsPerKeycode (KeyMap xu))].
                  KeyCodeMap xu kc col = keysym)"
  using assms
proof (induction xu keysym kc c rule: keycodeGet_columns.induct)
  case (1 xu keysym kc c)
  let ?n = "KeysymsPerKeycode (KeyMap xu)"
  show ?case
  proof (cases "c < ?n")
    case False
    then have "\<not> unat c < unat ?n" by (simp add: word_less_nat_alt)
    with False show ?thesis
      by (subst keycodeGet_columns.simps) simp
  next
    case True
    have kc: "uint (word_of_int kc :: byte) = kc"
      "MinKeycode xu \<le> word_of_int kc" "word_of_int kc \<le> MaxKeycode xu"
      using byte_of_int_range [OF "1.prems"(2,3)] by simp_all
    have get: "keysymGet xu (word_of_int kc) c = Inr (KeyCodeMap xu kc (unat c))"
      using KeyCodeMap_keysymGet [OF "1.prems"(1) kc(2,3) True] kc(1) by simp
    have lt: "unat c < unat ?n" using True by (simp add: word_less_nat_alt)
    have range: "[unat c..<unat ?n] = unat c # [unat (c + 1)..<unat ?n]"
      using lt byte_less_Suc [OF True] by (simp add: upt_conv_Cons)
    show ?thesis
    proof (cases "keysym = KeyCodeMap xu kc (unat c)")
      case True
      with \<open>c < ?n\<close> get range show ?thesis
        by (subst keycodeGet_columns.simps) auto
    next
      case False
      have "keycodeGet_columns xu keysym kc (c + 1) =
              Inr (\<exists>col \<in> set [unat (c + 1)..<unat ?n]. KeyCodeMap xu kc col = keysym)"
        using "1.IH" [OF True get False "1.prems"] .
      with False \<open>c < ?n\<close> get range show ?thesis
        by (subst keycodeGet_columns.simps) auto
    qed
  qed
qed


lemma keycodeGet_loop_scan:
  assumes "wf_keymap xu" and "uint (MinKeycode xu) \<le> kc"
  shows "keycodeGet_loop xu keysym kc =
           Inr (case find (row_holds xu keysym) [kc..uint (MaxKeycode xu)] of
                  None \<Rightarrow> 0 | Some k \<Rightarrow> word_of_int k)"
  using assms
proof (induction xu keysym kc rule: keycodeGet_loop.induct)
  case (1 xu keysym kc)
  show ?case
  proof (cases "kc \<le> uint (MaxKeycode xu)")
    case False
    then show ?thesis by (subst keycodeGet_loop.simps) simp
  next
    case True
    have cols: "keycodeGet_columns xu keysym kc 0 = Inr (row_holds xu keysym kc)"
      using keycodeGet_columns_scan [OF "1.prems"(1,2) True, of keysym 0]
      by (simp add: row_holds_def)
    have range: "[kc..uint (MaxKeycode xu)] = kc # [kc + 1..uint (MaxKeycode xu)]"
      using True by (simp add: upto_rec1)
    show ?thesis
    proof (cases "row_holds xu keysym kc")
      case True
      with \<open>kc \<le> uint (MaxKeycode xu)\<close> cols range show ?thesis
        by (subst keycodeGet_loop.simps) simp
    next
      case False
      have "uint (MinKeycode xu) \<le> kc + 1" using "1.prems"(2) by simp
      then have "keycodeGet_loop xu keysym (kc + 1) =
              Inr (case find (row_holds xu keysym) [kc + 1..uint (MaxKeycode xu)] of
                     None \<Rightarrow> 0 | Some k \<Rightarrow> word_of_int k)"
        using "1.IH" [OF True, of "row_holds xu keysym kc"] cols False "1.prems"(1) by simp
      with False \<open>kc \<le> uint (MaxKeycode xu)\<close> cols range show ?thesis
        by (subst keycodeGet_loop.simps) simp
    qed
  qed
qed

lemma find_append_case:
  "find P (xs @ ys) = (case find P xs of None \<Rightarrow> find P ys | Some x \<Rightarrow> Some x)"
  by (induction xs) simp_all

lemma find_map_Pair:
  "find (\<lambda>(k, c). P k c) (map (Pair k) cs) = map_option (Pair k) (find (P k) cs)"
  by (induction cs) simp_all

lemma find_product:
  "map_option fst (find (\<lambda>(k, c). P k c) (List.product ks cs)) =
     find (\<lambda>k. \<exists>c \<in> set cs. P k c) ks"
proof (induction ks)
  case Nil
  show ?case by simp
next
  case (Cons k ks)
  show ?case
  proof (cases "find (P k) cs")
    case None
    then have "\<not> (\<exists>c \<in> set cs. P k c)" by (simp add: find_None_iff)
    with None Cons show ?thesis
      by (simp add: find_append_case find_map_Pair)
  next
    case (Some c)
    then have "\<exists>c \<in> set cs. P k c" by (auto simp: find_Some_iff)
    with Some show ?thesis
      by (simp add: find_append_case find_map_Pair)
  qed
qed

lemma KeyCodeForSymbol_spec_rows:
  "KeyCodeForSymbol_spec xu keysym =
     (case find (row_holds xu keysym) [uint (MinKeycode xu)..uint (MaxKeycode xu)] of
        None \<Rightarrow> 0 | Some k \<Rightarrow> word_of_int k)"
proof -
  let ?P = "\<lambda>kc col. KeyCodeMap xu kc col = keysym"
  let ?ks = "[uint (MinKeycode xu)..uint (MaxKeycode xu)]"
  let ?cs = "[0..<unat (KeysymsPerKeycode (KeyMap xu))]"
  have rows: "row_holds xu keysym = (\<lambda>k. \<exists>c \<in> set ?cs. ?P k c)"
    by (simp add: row_holds_def fun_eq_iff)
  have "find (row_holds xu keysym) ?ks =
          map_option fst (find (\<lambda>(k, c). ?P k c) (List.product ?ks ?cs))"
    unfolding rows by (rule find_product [symmetric])
  then show ?thesis
    unfolding KeyCodeForSymbol_spec_def
    by (cases "find (\<lambda>(k, c). ?P k c) (List.product ?ks ?cs)") auto
qed

lemma keycodeGet_scan:
  assumes "wf_keymap xu"
  shows "keycodeGet xu keysym = Inr (KeyCodeForSymbol_spec xu keysym)"
  using keycodeGet_loop_scan [OF assms, of "uint (MinKeycode xu)" keysym]
  by (simp add: keycodeGet_def minMaxKeycodeGet_def KeyCodeForSymbol_spec_rows)

text \<open>
  Claim C3. On a well-formed key map \<open>keycodeGet\<close> returns, for every keysym, the keycode
  of the first entry equal to the keysym when the keycodes from \<open>min\<close> to \<open>max\<close> are scanned
  in ascending order and, within a keycode, the columns from 0 to \<open>KeysymsPerKeycode - 1\<close>
  in ascending order; it returns 0 when no entry equals the keysym.
\<close>

theorem keycodeGet_first_match:
  assumes "wf_keymap xu"
  shows "keycodeGet xu keysym = Inr (KeyCodeForSymbol_spec xu keysym)"
  using assms by (rule keycodeGet_scan)


lemma find_upto_first:
  assumes "a \<le> x" "x \<le> b" "P x"
  shows "\<exists>k. find P [a..b] = Some k \<and> a \<le> k \<and> k \<le> x \<and> P k
             \<and> (\<forall>k'. a \<le> k' \<and> k' < k \<longrightarrow> \<not> P k')"
  using assms
proof (induction a b rule: upto.induct)
  case (1 i j)
  have range: "[i..j] = i # [i + 1..j]" using "1.prems" by (simp add: upto_rec1)
  show ?case
  proof (cases "P i")
    case True
    with range "1.prems" show ?thesis by auto
  next
    case False
    with "1.prems" have "i \<noteq> x" by auto
    with "1.prems" have less: "i + 1 \<le> x" "i \<le> j" by simp_all
    obtain k where k: "find P [i + 1..j] = Some k" "i + 1 \<le> k" "k \<le> x" "P k"
        "\<forall>k'. i + 1 \<le> k' \<and> k' < k \<longrightarrow> \<not> P k'"
      using "1.IH" [OF less(2) less(1) "1.prems"(2,3)] by blast
    have "\<forall>k'. i \<le> k' \<and> k' < k \<longrightarrow> \<not> P k'"
    proof (intro allI impI)
      fix k' assume "i \<le> k' \<and> k' < k"
      then have "k' = i \<or> (i + 1 \<le> k' \<and> k' < k)" by auto
      with False k(5) show "\<not> P k'" by blast
    qed
    with False range k show ?thesis by auto
  qed
qed

lemma row_holds_iff:
  "row_holds xu keysym kc \<longleftrightarrow>
     (\<exists>col < unat (KeysymsPerKeycode (KeyMap xu)). KeyCodeMap xu kc col = keysym)"
  by (auto simp: row_holds_def)

lemma byte_of_nat_column:
  assumes "col < unat (n :: byte)"
  shows "unat (of_nat col :: byte) = col" and "(of_nat col :: byte) < n"
proof -
  have "unat n < 2 ^ 8" using unsigned_less [of n] by simp
  with assms have "col < 2 ^ LENGTH(8)" by simp
  then show u: "unat (of_nat col :: byte) = col" by (simp add: unat_of_nat take_bit_nat_eq_self)
  show "(of_nat col :: byte) < n" using assms u by (simp add: word_less_nat_alt)
qed

text \<open>
  Claim C4. Round trip: on a well-formed key map, for a keycode \<open>c\<close> of \<open>[min, max]\<close> and a
  column \<open>j\<close> below \<open>KeysymsPerKeycode\<close>, \<open>keycodeGet\<close> applied to the keysym that \<open>keysymGet\<close>
  reads at \<open>(c, j)\<close> returns a keycode \<open>c'\<close> of the range (not above \<open>c\<close>, and not
  necessarily \<open>c\<close>) that holds the same keysym in some column, and no keycode of the range
  below \<open>c'\<close> holds it in any column.
\<close>

theorem keycodeGet_round_trip:
  assumes wf: "wf_keymap xu"
    and c: "MinKeycode xu \<le> c" "c \<le> MaxKeycode xu"
    and j: "j < KeysymsPerKeycode (KeyMap xu)"
  shows "\<exists>s c'. keysymGet xu c j = Inr s \<and> keycodeGet xu s = Inr c'
           \<and> MinKeycode xu \<le> c' \<and> c' \<le> c
           \<and> (\<exists>k < KeysymsPerKeycode (KeyMap xu). keysymGet xu c' k = Inr s)
           \<and> (\<forall>c''. MinKeycode xu \<le> c'' \<and> c'' < c' \<longrightarrow>
                 (\<forall>k < KeysymsPerKeycode (KeyMap xu). keysymGet xu c'' k \<noteq> Inr s))"
proof -
  let ?n = "KeysymsPerKeycode (KeyMap xu)"
  define s where "s = KeyCodeMap xu (uint c) (unat j)"
  have get: "keysymGet xu c j = Inr s"
    unfolding s_def by (rule KeyCodeMap_keysymGet [OF wf c j])
  have "unat j < unat ?n" using j by (simp add: word_less_nat_alt)
  then have holds: "row_holds xu s (uint c)"
    unfolding row_holds_iff s_def by blast
  have range: "uint (MinKeycode xu) \<le> uint c" "uint c \<le> uint (MaxKeycode xu)"
    using c by (simp_all add: word_le_def)
  obtain k where k: "find (row_holds xu s) [uint (MinKeycode xu)..uint (MaxKeycode xu)] = Some k"
      "uint (MinKeycode xu) \<le> k" "k \<le> uint c" "row_holds xu s k"
      "\<forall>k'. uint (MinKeycode xu) \<le> k' \<and> k' < k \<longrightarrow> \<not> row_holds xu s k'"
    using find_upto_first [OF range, of "row_holds xu s", OF holds] by blast
  define c' :: byte where "c' = word_of_int k"
  have kmax: "k \<le> uint (MaxKeycode xu)" using k(3) range(2) by simp
  have c': "uint c' = k" "MinKeycode xu \<le> c'" "c' \<le> MaxKeycode xu"
    unfolding c'_def using byte_of_int_range [OF k(2) kmax] by simp_all
  have res: "keycodeGet xu s = Inr c'"
    using keycodeGet_scan [OF wf, of s] k(1)
    by (simp add: KeyCodeForSymbol_spec_rows c'_def)
  have le: "c' \<le> c" using k(3) c'(1) by (simp add: word_le_def)
  obtain col where col: "col < unat ?n" "KeyCodeMap xu k col = s"
    using k(4) unfolding row_holds_iff by blast
  have "keysymGet xu c' (of_nat col) = Inr s"
    using KeyCodeMap_keysymGet [OF wf c'(2,3) byte_of_nat_column(2) [OF col(1)]]
          byte_of_nat_column(1) [OF col(1)] c'(1) col(2)
    by simp
  then have ex: "\<exists>k < ?n. keysymGet xu c' k = Inr s"
    using byte_of_nat_column(2) [OF col(1)] by blast
  have first: "\<forall>c''. MinKeycode xu \<le> c'' \<and> c'' < c' \<longrightarrow>
                 (\<forall>k < ?n. keysymGet xu c'' k \<noteq> Inr s)"
  proof (intro allI impI)
    fix c'' col'
    assume r: "MinKeycode xu \<le> c'' \<and> c'' < c'" and cl: "col' < ?n"
    then have u: "uint (MinKeycode xu) \<le> uint c''" "uint c'' < k"
      using c'(1) by (simp_all add: word_le_def word_less_def)
    then have no: "\<not> row_holds xu s (uint c'')" using k(5) by blast
    have "c'' \<le> MaxKeycode xu" using r c'(3) by (simp add: word_le_def word_less_def)
    then have "keysymGet xu c'' col' = Inr (KeyCodeMap xu (uint c'') (unat col'))"
      using KeyCodeMap_keysymGet [OF wf _ _ cl] r by blast
    moreover have "unat col' < unat ?n" using cl by (simp add: word_less_nat_alt)
    ultimately show "keysymGet xu c'' col' \<noteq> Inr s"
      using no unfolding row_holds_iff by auto
  qed
  from get res c'(2) le ex first show ?thesis by blast
qed


theorem keycodeGet_first_match_witness:
  "wf_keymap ex_xu \<and> keycodeGet ex_xu 0xFF0D = Inr 9 \<and> keycodeGet ex_xu 0x7A = Inr 0"
proof -
  have "KeyCodeForSymbol_spec ex_xu 0xFF0D = 9" "KeyCodeForSymbol_spec ex_xu 0x7A = 0"
    by code_simp+
  then show ?thesis
    using keycodeGet_first_match [OF wf_keymap_ex_xu, of "0xFF0D"]
          keycodeGet_first_match [OF wf_keymap_ex_xu, of "0x7A"] wf_keymap_ex_xu
    by simp
qed

theorem keycodeGet_round_trip_witness:
  "wf_keymap ex_xu \<and> MinKeycode ex_xu \<le> 10 \<and> 10 \<le> MaxKeycode ex_xu
   \<and> 0 < KeysymsPerKeycode (KeyMap ex_xu)
   \<and> keysymGet ex_xu 10 0 = Inr 0xFF0D \<and> keycodeGet ex_xu 0xFF0D = Inr 9
   \<and> (\<exists>s c'. keysymGet ex_xu 10 0 = Inr s \<and> keycodeGet ex_xu s = Inr c'
          \<and> MinKeycode ex_xu \<le> c' \<and> c' \<le> 10
          \<and> (\<exists>k < KeysymsPerKeycode (KeyMap ex_xu). keysymGet ex_xu c' k = Inr s)
          \<and> (\<forall>c''. MinKeycode ex_xu \<le> c'' \<and> c'' < c' \<longrightarrow>
                (\<forall>k < KeysymsPerKeycode (KeyMap ex_xu). keysymGet ex_xu c'' k \<noteq> Inr s)))"
proof -
  have r: "MinKeycode ex_xu \<le> 10" "10 \<le> MaxKeycode ex_xu"
    "0 < KeysymsPerKeycode (KeyMap ex_xu)"
    by (simp_all add: ex_xu_def ex_keymap_def)
  have v: "keysymGet ex_xu 10 0 = Inr 0xFF0D" "keycodeGet ex_xu 0xFF0D = Inr 9"
    by code_simp+
  show ?thesis
    using keycodeGet_round_trip [OF wf_keymap_ex_xu r] wf_keymap_ex_xu r v
    by simp
qed



section \<open>Properties of mapsGet\<close>

text \<open>
  Claim C6. \<open>mapsGet\<close> panics exactly when the keyboard-mapping query or the
  modifier-mapping query fails; it returns exactly when both succeed, and then it returns
  the two replies together, so it never returns one table without the other.
\<close>

theorem mapsGet_fatal_iff:
  "((\<exists>p. mapsGet xu = Inl p) \<longleftrightarrow>
      isl (GetKeyboardMapping xu (MinKeycode xu) (MaxKeycode xu - MinKeycode xu + 1))
      \<or> isl (GetModifierMapping xu))
   \<and> (\<forall>keyMap modMap. mapsGet xu = Inr (keyMap, modMap) \<longleftrightarrow>
        GetKeyboardMapping xu (MinKeycode xu) (MaxKeycode xu - MinKeycode xu + 1) = Inr keyMap
        \<and> GetModifierMapping xu = Inr modMap)"
  by (auto simp: mapsGet_def minMaxKeycodeGet_def Let_def split: sum.splits)

theorem mapsGet_fatal_iff_witness:
  "mapsGet ex_xu = Inr (ex_keymap, ex_modmap)
   \<and> mapsGet failing_xu = Inl (CouldNotGetModifierMapping None)
   \<and> isl (GetModifierMapping failing_xu)
   \<and> \<not> isl (GetKeyboardMapping failing_xu (MinKeycode failing_xu)
               (MaxKeycode failing_xu - MinKeycode failing_xu + 1))"
proof -
  have e: "GetKeyboardMapping ex_xu (MinKeycode ex_xu) (MaxKeycode ex_xu - MinKeycode ex_xu + 1)
             = Inr ex_keymap" "GetModifierMapping ex_xu = Inr ex_modmap"
    by (simp_all add: ex_xu_def)
  have f: "isl (GetModifierMapping failing_xu)"
    "\<not> isl (GetKeyboardMapping failing_xu (MinKeycode failing_xu)
               (MaxKeycode failing_xu - MinKeycode failing_xu + 1))"
    by (simp_all add: failing_xu_def)
  have m: "mapsGet failing_xu = Inl (CouldNotGetModifierMapping None)"
    by (simp add: mapsGet_def minMaxKeycodeGet_def failing_xu_def)
  show ?thesis
    using mapsGet_fatal_iff [of ex_xu] mapsGet_fatal_iff [of failing_xu] e f m
    by simp
qed

lemma updateMaps_whole:
  "updateMaps xu = Inr xu' \<Longrightarrow>
     GetKeyboardMapping xu (MinKeycode xu) (MaxKeycode xu - MinKeycode xu + 1) = Inr (KeyMap xu')
     \<and> GetModifierMapping xu = Inr (ModMap xu')"
  by (auto simp: updateMaps_def mapsGet_def minMaxKeycodeGet_def Let_def split: sum.splits)

section \<open>Properties of lookupString\<close>

text \<open>The four lookups of \<open>lookupString\<close>: the first form found in the table wins, and
  no other form is tried.\<close>

lemma KeySymLookup_forms:
  "KeySymLookup E str =
     (case find (\<lambda>form. keysyms E form \<noteq> None) (lookup_forms E str) of
        None \<Rightarrow> (0, False)
      | Some form \<Rightarrow> map_index2 (keysyms E) form)"
  by (auto simp: KeySymLookup_def lookup_forms_def map_index2_def Let_def split: option.splits)


text \<open>
  Claim C2, as the spec states it, fails on the table that holds only the name Return: the
  lookup of RETURN finds nothing, because the second form tried is \<open>strings.Title\<close> of the
  name, which changes the first letter of each word only and leaves RETURN as it is.
\<close>

theorem KeySymLookup_RETURN_counterexample:
  "dom (keysyms return_env) = {''Return''}
   \<and> strings_Title return_env ''RETURN'' = ''RETURN''
   \<and> KeySymLookup return_env ''RETURN'' = (0, False)"
proof -
  have "dom (keysyms return_env) = {''Return''}"
    by (simp add: return_env_def ascii_env_def)
  moreover have "strings_Title return_env ''RETURN'' = ''RETURN''"
    by code_simp
  moreover have "KeySymLookup return_env ''RETURN'' = (0, False)"
    by code_simp
  ultimately show ?thesis by simp
qed

text \<open>
  Claim C2, amended. \<open>lookupString\<close> tries the name against the symbol table in four steps
  in this order: the name itself, \<open>strings.Title\<close> of the name (the first letter of each
  word in upper case, every other letter unchanged), the name in lower case, the name in
  upper case; the first hit wins and no fifth form is tried. For the table that holds only
  the name Return, the lookups of return and Return give the same symbol, and the lookups
  of RETURN and rEtUrN find nothing.
\<close>

theorem KeySymLookup_four_steps:
  "KeySymLookup E str =
     (case find (\<lambda>form. keysyms E form \<noteq> None)
             [str, strings_Title E str, strings_ToLower E str, strings_ToUpper E str] of
        None \<Rightarrow> (0, False)
      | Some form \<Rightarrow> map_index2 (keysyms E) form)
   \<and> KeySymLookup return_env ''return'' = (0xFF0D, True)
   \<and> KeySymLookup return_env ''Return'' = (0xFF0D, True)
   \<and> KeySymLookup return_env ''RETURN'' = (0, False)
   \<and> KeySymLookup return_env ''rEtUrN'' = (0, False)
   \<and> lookup_forms return_env ''rEtUrN'' = [''rEtUrN'', ''REtUrN'', ''return'', ''RETURN'']"
proof -
  have "KeySymLookup return_env ''return'' = (0xFF0D, True)"
    "KeySymLookup return_env ''Return'' = (0xFF0D, True)"
    "KeySymLookup return_env ''RETURN'' = (0, False)"
    "KeySymLookup return_env ''rEtUrN'' = (0, False)"
    "lookup_forms return_env ''rEtUrN'' = [''rEtUrN'', ''REtUrN'', ''return'', ''RETURN'']"
    by code_simp+
  then show ?thesis
    using KeySymLookup_forms [of E str] by (simp add: lookup_forms_def)
qed

theorem KeySymLookup_four_steps_witness:
  "KeySymLookup ex_env ''f1'' = (0xFFBE, True)
   \<and> find (\<lambda>form. keysyms ex_env form \<noteq> None)
        [''f1'', strings_Title ex_env ''f1'', strings_ToLower ex_env ''f1'',
         strings_ToUpper ex_env ''f1''] = Some ''F1''"
proof -
  have "find (\<lambda>form. keysyms ex_env form \<noteq> None)
        [''f1'', strings_Title ex_env ''f1'', strings_ToLower ex_env ''f1'',
         strings_ToUpper ex_env ''f1''] = Some ''F1''"
    "map_index2 (keysyms ex_env) ''F1'' = (0xFFBE, True)"
    by code_simp+
  then show ?thesis
    using KeySymLookup_four_steps [of ex_env "''f1''"] by simp
qed


section \<open>Properties of ParseString\<close>

lemma Split_hyphen_not_Nil: "Split_hyphen str \<noteq> []"
  by (induction str) (auto split: list.splits)

lemma Split_hyphen_no_hyphen: "part \<in> set (Split_hyphen str) \<Longrightarrow> CHR ''-'' \<notin> set part"
  by (induction str arbitrary: part) (auto split: list.splits if_splits)

lemma token_mask_cases:
  "switch_modifier (strings_ToLower E part) = Some m \<Longrightarrow> token_mask E part = m"
  "switch_modifier (strings_ToLower E part) = None \<Longrightarrow> token_mask E part = 0"
  by (simp_all add: token_mask_def)

text \<open>Once a keycode other than 0 is held, the loop only collects modifier bits.\<close>

lemma ParseString_loop_keeps:
  "kc \<noteq> 0 \<Longrightarrow>
   ParseString_loop E xu parts mods kc =
     Inr (fold (\<lambda>part mods. mods OR token_mask E part) parts mods, kc)"
proof (induction parts arbitrary: mods)
  case Nil
  show ?case by simp
next
  case (Cons part parts)
  show ?case
  proof (cases "switch_modifier (strings_ToLower E part)")
    case None
    with Cons show ?thesis by (simp add: token_mask_cases)
  next
    case (Some m)
    with Cons show ?thesis by (simp add: token_mask_cases)
  qed
qed

text \<open>While every key token resolves to 0, the loop goes on looking.\<close>

lemma ParseString_loop_unresolved:
  "\<forall>part \<in> set parts. is_modifier_token E part \<or> lookupString E xu part = Inr 0 \<Longrightarrow>
   ParseString_loop E xu (parts @ rest) mods 0 =
     ParseString_loop E xu rest (fold (\<lambda>part mods. mods OR token_mask E part) parts mods) 0"
proof (induction parts arbitrary: mods)
  case Nil
  show ?case by simp
next
  case (Cons part parts)
  show ?case
  proof (cases "switch_modifier (strings_ToLower E part)")
    case None
    then have "lookupString E xu part = Inr 0"
      using Cons.prems by (simp add: is_modifier_token_def)
    with None Cons show ?thesis by (simp add: token_mask_cases)
  next
    case (Some m)
    with Cons show ?thesis by (simp add: token_mask_cases)
  qed
qed

lemma lookupString_zero_iff:
  "lookupString E xu part = Inr 0 \<longleftrightarrow>
     \<not> snd (KeySymLookup E part) \<or> keycodeGet xu (fst (KeySymLookup E part)) = Inr 0"
  by (cases "KeySymLookup E part") (auto simp: lookupString_def)

text \<open>
  Claim C1, amended. \<open>ParseString\<close> splits the string on the hyphen; every token whose
  lower-cased form is a modifier name ORs its bit into the mask; the other tokens are
  looked up in order (\<open>lookupString\<close>: symbol table, then \<open>keycodeGet\<close>) until the first one
  that resolves to a keycode other than 0; that keycode is the result, and the
  non-modifier tokens after it are not looked up and have no effect. A non-modifier token
  that resolves to 0 does not stop the tokens after it from being looked up.
\<close>

theorem ParseString_first_resolving:
  assumes split: "Split_hyphen str = pre @ t # post"
    and pre: "\<forall>part \<in> set pre. is_modifier_token E part \<or> lookupString E xu part = Inr 0"
    and t: "\<not> is_modifier_token E t" "lookupString E xu t = Inr k" "k \<noteq> 0"
  shows "ParseString E xu str = Inr (mask_of E (Split_hyphen str), k, [])"
proof -
  let ?f = "\<lambda>part mods. mods OR token_mask E part"
  have none: "switch_modifier (strings_ToLower E t) = None"
    using t(1) by (simp add: is_modifier_token_def)
  have "ParseString_loop E xu (pre @ t # post) 0 0 =
          ParseString_loop E xu (t # post) (fold ?f pre 0) 0"
    by (rule ParseString_loop_unresolved [OF pre])
  also have "\<dots> = ParseString_loop E xu post (fold ?f pre 0) k"
    using none t(2) by simp
  also have "\<dots> = Inr (fold ?f post (fold ?f pre 0), k)"
    by (rule ParseString_loop_keeps [OF t(3)])
  also have "fold ?f post (fold ?f pre 0) = fold ?f (pre @ t # post) 0"
    using none by (simp add: token_mask_cases)
  finally show ?thesis
    using t(3) by (simp add: ParseString_def split mask_of_def)
qed

text \<open>
  Claim C7. When no token of the string resolves to a keycode (each token is a modifier
  name, or its name is unknown in all four forms, or \<open>keycodeGet\<close> finds no keycode for its
  symbol), \<open>ParseString\<close> returns normally: keycode 0 together with the mask accumulated
  from the modifier tokens, and with the warning logged. It does not panic.
\<close>

theorem ParseString_unresolved:
  assumes "\<forall>part \<in> set (Split_hyphen str).
             is_modifier_token E part \<or> \<not> snd (KeySymLookup E part)
             \<or> keycodeGet xu (fst (KeySymLookup E part)) = Inr 0"
  shows "ParseString E xu str =
           Inr (mask_of E (Split_hyphen str), 0, [ParseString_warning str])"
proof -
  have "\<forall>part \<in> set (Split_hyphen str).
          is_modifier_token E part \<or> lookupString E xu part = Inr 0"
    using assms by (auto simp: lookupString_zero_iff)
  from ParseString_loop_unresolved [OF this, of "[]" 0]
  show ?thesis by (simp add: ParseString_def mask_of_def)
qed


text \<open>
  Claim C1, as the spec states it, fails: in \<open>foo-j\<close> the first token that is no modifier
  name is \<open>foo\<close>, which resolves to keycode 0; the second such token \<open>j\<close> is then looked up
  all the same, and the result is its keycode 8, not the 0 that \<open>foo\<close> alone gives.
\<close>

theorem ParseString_second_token_counterexample:
  "first_key_token ex_env (Split_hyphen ''foo-j'') = Some ''foo''
   \<and> lookupString ex_env ex_xu ''foo'' = Inr 0
   \<and> ParseString ex_env ex_xu ''foo'' = Inr (0, 0, [ParseString_warning ''foo''])
   \<and> ParseString ex_env ex_xu ''foo-j'' = Inr (0, 8, [])"
proof -
  have "first_key_token ex_env (Split_hyphen ''foo-j'') = Some ''foo''"
    "lookupString ex_env ex_xu ''foo'' = Inr 0"
    "ParseString ex_env ex_xu ''foo'' = Inr (0, 0, [ParseString_warning ''foo''])"
    "ParseString ex_env ex_xu ''foo-j'' = Inr (0, 8, [])"
    by code_simp+
  then show ?thesis by simp
qed

theorem ParseString_first_resolving_witness:
  "Split_hyphen ''sHiFt--Return-j-Mod4'' = [''sHiFt'', []] @ ''Return'' # [''j'', ''Mod4'']
   \<and> is_modifier_token ex_env ''sHiFt'' \<and> lookupString ex_env ex_xu [] = Inr 0
   \<and> \<not> is_modifier_token ex_env ''Return'' \<and> lookupString ex_env ex_xu ''Return'' = Inr 9
   \<and> ParseString ex_env ex_xu ''sHiFt--Return-j-Mod4'' = Inr (65, 9, [])"
proof -
  have split: "Split_hyphen ''sHiFt--Return-j-Mod4'' = [''sHiFt'', []] @ ''Return'' # [''j'', ''Mod4'']"
    by code_simp
  have m: "is_modifier_token ex_env ''sHiFt''" and e: "lookupString ex_env ex_xu [] = Inr 0"
    by code_simp+
  have pre: "\<forall>part \<in> set [''sHiFt'', []].
               is_modifier_token ex_env part \<or> lookupString ex_env ex_xu part = Inr 0"
    using m e by simp
  have t: "\<not> is_modifier_token ex_env ''Return''" "lookupString ex_env ex_xu ''Return'' = Inr 9"
    "(9 :: byte) \<noteq> 0"
    by code_simp+
  have mask: "mask_of ex_env (Split_hyphen ''sHiFt--Return-j-Mod4'') = 65"
    by code_simp
  show ?thesis
    using ParseString_first_resolving [OF split pre t] split m e t mask by simp
qed

theorem ParseString_unresolved_witness:
  "Split_hyphen ''Shift-foo-F1'' = [''Shift'', ''foo'', ''F1'']
   \<and> is_modifier_token ex_env ''Shift''
   \<and> \<not> snd (KeySymLookup ex_env ''foo'')
   \<and> KeySymLookup ex_env ''F1'' = (0xFFBE, True) \<and> keycodeGet ex_xu 0xFFBE = Inr 0
   \<and> ParseString ex_env ex_xu ''Shift-foo-F1'' = Inr (1, 0, [ParseString_warning ''Shift-foo-F1''])"
proof -
  have parts: "Split_hyphen ''Shift-foo-F1'' = [''Shift'', ''foo'', ''F1'']"
    "is_modifier_token ex_env ''Shift''" "\<not> snd (KeySymLookup ex_env ''foo'')"
    "KeySymLookup ex_env ''F1'' = (0xFFBE, True)" "keycodeGet ex_xu 0xFFBE = Inr 0"
    by code_simp+
  have hyp: "\<forall>part \<in> set (Split_hyphen ''Shift-foo-F1'').
             is_modifier_token ex_env part \<or> \<not> snd (KeySymLookup ex_env part)
             \<or> keycodeGet ex_xu (fst (KeySymLookup ex_env part)) = Inr 0"
    using parts by simp
  have mask: "mask_of ex_env (Split_hyphen ''Shift-foo-F1'') = 1"
    by code_simp
  show ?thesis
    using ParseString_unresolved [OF hyp] parts mask by simp
qed



section \<open>Properties of modGet\<close>

lemma byte_below_256: "unat (i :: byte) < 256"
  using unsigned_less [of i] by simp

lemma byte_index_less:
  assumes "unat (i :: byte) < n"
  shows "uint i < int n"
proof -
  have "int (unat i) < int n" using assms by (rule iffD2 [OF of_nat_less_iff])
  then show ?thesis by (simp only: uint_nat)
qed

lemma byte_index_not_less:
  assumes "n \<le> unat (i :: byte)"
  shows "\<not> uint i < int n"
proof -
  have "int n \<le> int (unat i)" using assms by (rule iffD2 [OF of_nat_le_iff])
  then show ?thesis by (simp only: uint_nat not_less)
qed

lemma byte_Suc_below_255:
  assumes "unat (i :: byte) \<noteq> 255"
  shows "unat (i + 1) = Suc (unat i)"
proof -
  have "unat i < unat (255 :: byte)" using assms byte_below_256 [of i] by simp
  then have "i < 255" by (simp only: word_less_nat_alt)
  then show ?thesis by (rule byte_less_Suc)
qed

text \<open>On a table of 256 slots or more the byte counter never reaches the length: when
  none of the first 256 slots holds the keycode, the loop does not end.\<close>

lemma modGet_loop_wraps:
  assumes len: "256 \<le> length (Keycodes (ModMap xu))"
    and no: "\<forall>j < 256. Keycodes (ModMap xu) ! j \<noteq> keycode"
  shows "modGet_loop xu keycode i = None"
proof (rule ccontr)
  let ?Q = "\<lambda>xu keycode. 256 \<le> length (Keycodes (ModMap xu))
                \<and> (\<forall>j < 256. Keycodes (ModMap xu) ! j \<noteq> keycode)"
  assume "modGet_loop xu keycode i \<noteq> None"
  then obtain y where ret: "modGet_loop xu keycode i = Some y" by auto
  have "\<not> ?Q xu keycode"
  proof (rule modGet_loop.raw_induct [where P = "\<lambda>xu keycode i y. \<not> ?Q xu keycode", OF _ ret])
    fix f :: "'a XUtil \<Rightarrow> byte \<Rightarrow> byte \<Rightarrow> ('a panic + uint16) option"
      and xu keycode i y
    assume IH: "\<And>xu keycode i y. f xu keycode i = Some y \<Longrightarrow> \<not> ?Q xu keycode"
      and body: "(if uint i < int (length (Keycodes (ModMap xu))) then
                    (if Keycodes (ModMap xu) ! unat i = keycode then
                       (if KeycodesPerModifier (ModMap xu) = 0 then Some (Inl DivideByZero)
                        else Some (modifiers_index
                                     (unat (i div KeycodesPerModifier (ModMap xu)))))
                     else f xu keycode (i + 1))
                  else Some (Inr 0)) = Some y"
    show "\<not> ?Q xu keycode"
    proof
      assume q: "?Q xu keycode"
      from q have "unat i < length (Keycodes (ModMap xu))"
        using byte_below_256 [of i] by linarith
      then have lt: "uint i < int (length (Keycodes (ModMap xu)))"
        by (rule byte_index_less)
      have ne: "Keycodes (ModMap xu) ! unat i \<noteq> keycode"
        using q byte_below_256 [of i] by blast
      from body have "f xu keycode (i + 1) = Some y"
        by (simp only: lt ne if_True if_False)
      from IH [OF this] q show False by blast
    qed
  qed
  with assms show False by blast
qed

lemma find_upt_stop:
  "n \<le> from \<Longrightarrow> (case find P [from..<n] of Some j \<Rightarrow> f j | None \<Rightarrow> d) = d"
  by simp

lemma find_upt_step:
  "from < n \<Longrightarrow>
   (case find P [from..<n] of Some j \<Rightarrow> f j | None \<Rightarrow> d) =
     (if P from then f from
      else (case find P [Suc from..<n] of Some j \<Rightarrow> f j | None \<Rightarrow> d))"
  by (simp add: upt_conv_Cons)

text \<open>The whole behaviour of the loop: it sees the first 256 slots at most.\<close>

lemma modGet_loop_scan:
  assumes "\<forall>j < unat i. Keycodes (ModMap xu) ! j \<noteq> keycode"
  shows "modGet_loop xu keycode i =
     (case find (\<lambda>j. Keycodes (ModMap xu) ! j = keycode)
             [unat i..<min (length (Keycodes (ModMap xu))) 256] of
        Some j \<Rightarrow> Some (modGet_row xu j)
      | None \<Rightarrow> if length (Keycodes (ModMap xu)) \<le> 255 then Some (Inr 0) else None)"
  using assms
proof (induction "min (length (Keycodes (ModMap xu))) 256 - unat i" arbitrary: i rule: less_induct)
  case less
  let ?ks = "Keycodes (ModMap xu)"
  let ?n = "min (length ?ks) 256"
  let ?d = "if length ?ks \<le> 255 then Some (Inr 0) else None"
  let ?rhs = "\<lambda>from. (case find (\<lambda>j. ?ks ! j = keycode) [from..<?n] of
        Some j \<Rightarrow> Some (modGet_row xu j) | None \<Rightarrow> ?d)"
  note i256 = byte_below_256 [of i]
  show ?case
  proof (cases "unat i < ?n")
    case False
    with i256 have le: "length ?ks \<le> unat i" and short: "length ?ks \<le> 255"
      by linarith+
    have exit: "\<not> uint i < int (length ?ks)" using le by (rule byte_index_not_less)
    from False have "?n \<le> unat i" by (simp only: not_less)
    then have "?rhs (unat i) = ?d" by (rule find_upt_stop)
    also have "\<dots> = Some (Inr 0)" using short by (simp only: if_True)
    finally have r: "?rhs (unat i) = Some (Inr 0)" .
    have "modGet_loop xu keycode i = Some (Inr 0)"
      by (subst modGet_loop.simps) (simp only: exit if_False)
    with r show ?thesis by (simp only:)
  next
    case True
    then have "unat i < length ?ks" by linarith
    then have lt: "uint i < int (length ?ks)" by (rule byte_index_less)
    have unfold: "?rhs (unat i) =
        (if ?ks ! unat i = keycode then Some (modGet_row xu (unat i)) else ?rhs (Suc (unat i)))"
      using True by (rule find_upt_step)
    show ?thesis
    proof (cases "?ks ! unat i = keycode")
      case True
      have "modGet_loop xu keycode i = Some (modGet_row xu (unat i))"
        by (subst modGet_loop.simps)
           (simp only: lt True if_True modGet_row_def unat_div if_distrib [of Some] refl)
      moreover have "?rhs (unat i) = Some (modGet_row xu (unat i))"
        using unfold if_P [OF True] by (rule trans)
      ultimately show ?thesis by (simp only:)
    next
      case False
      have no: "\<forall>j < Suc (unat i). ?ks ! j \<noteq> keycode"
        using less.prems False by (auto simp: less_Suc_eq)
      have step: "modGet_loop xu keycode i = modGet_loop xu keycode (i + 1)"
        by (subst modGet_loop.simps) (simp only: lt False if_True if_False)
      have skip: "?rhs (unat i) = ?rhs (Suc (unat i))"
        using unfold if_not_P [OF False] by (rule trans)
      show ?thesis
      proof (cases "unat i = 255")
        case True
        with \<open>unat i < ?n\<close> have len: "256 \<le> length ?ks" by linarith
        have "Suc (unat i) = 256" using True by simp
        with no have "\<forall>j < 256. ?ks ! j \<noteq> keycode" by metis
        from modGet_loop_wraps [OF len this]
        have none: "modGet_loop xu keycode i = None" .
        have "?n \<le> 256" by (rule min.cobounded2)
        with True have "?n \<le> Suc (unat i)" by linarith
        then have "?rhs (Suc (unat i)) = ?d" by (rule find_upt_stop)
        moreover have "\<not> length ?ks \<le> 255" using len by linarith
        ultimately have "?rhs (Suc (unat i)) = None" by (simp only: if_False)
        with none skip show ?thesis by (simp only:)
      next
        case False
        then have suc: "unat (i + 1) = Suc (unat i)" by (rule byte_Suc_below_255)
        have "?n - unat (i + 1) < ?n - unat i"
          using \<open>unat i < ?n\<close> suc by linarith
        moreover have "\<forall>j < unat (i + 1). ?ks ! j \<noteq> keycode"
          using no suc by (simp only:)
        ultimately have "modGet_loop xu keycode (i + 1) = ?rhs (unat (i + 1))"
          by (rule less.hyps)
        with step skip suc show ?thesis by (simp only:)
      qed
    qed
  qed
qed

lemma modGet_scan:
  "modGet xu keycode =
     (case find (\<lambda>j. Keycodes (ModMap xu) ! j = keycode)
             [0..<min (length (Keycodes (ModMap xu))) 256] of
        Some j \<Rightarrow> Some (modGet_row xu j)
      | None \<Rightarrow> if length (Keycodes (ModMap xu)) \<le> 255 then Some (Inr 0) else None)"
proof -
  have "\<forall>j < unat (0 :: byte). Keycodes (ModMap xu) ! j \<noteq> keycode" by simp
  from modGet_loop_scan [OF this] show ?thesis
    by (simp only: modGet_def unat_0)
qed


text \<open>Below 256 slots, on a well-formed modifier map, \<open>modGet\<close> is the spec's scan.\<close>

lemma modifiers_index_row:
  assumes "wf_modmap xu" and "j < length (Keycodes (ModMap xu))"
  shows "modGet_row xu j = Inr (modifiers ! (j div unat (KeycodesPerModifier (ModMap xu))))"
    and "j div unat (KeycodesPerModifier (ModMap xu)) < 8"
proof -
  let ?k = "unat (KeycodesPerModifier (ModMap xu))"
  have j: "j < 8 * ?k" using assms by (simp add: wf_modmap_def)
  then have k: "0 < ?k" by (cases "?k = 0") simp_all
  then have nz: "KeycodesPerModifier (ModMap xu) \<noteq> 0" by (auto simp: unat_eq_0)
  have "j < ?k * 8" using j by (simp add: mult.commute)
  then show row: "j div ?k < 8" using k by (simp add: less_mult_imp_div_less mult.commute)
  then have "j div ?k < length modifiers" by (simp add: modifiers_def)
  with nz show "modGet_row xu j = Inr (modifiers ! (j div ?k))"
    by (simp add: modGet_row_def modifiers_index_def)
qed

lemma modGet_first_match:
  assumes wf: "wf_modmap xu" and short: "length (Keycodes (ModMap xu)) \<le> 255"
  shows "modGet xu keycode = Some (Inr (ModifierForKeyCode_spec xu keycode))"
proof -
  let ?ks = "Keycodes (ModMap xu)"
  let ?P = "\<lambda>j. ?ks ! j = keycode"
  have n: "min (length ?ks) 256 = length ?ks" using short by linarith
  show ?thesis
  proof (cases "find ?P [0..<length ?ks]")
    case None
    then show ?thesis
      using short by (simp only: modGet_scan n ModifierForKeyCode_spec_def option.case if_True)
  next
    case (Some j)
    then have "j \<in> set [0..<length ?ks]" by (auto simp: find_Some_iff)
    then have "j < length ?ks" by simp
    from modifiers_index_row(1) [OF wf this] Some show ?thesis
      by (simp only: modGet_scan n ModifierForKeyCode_spec_def option.case)
  qed
qed

lemma modifiers_nonzero: "n < 9 \<Longrightarrow> modifiers ! n \<noteq> 0"
proof -
  assume "n < 9"
  then have "n \<in> {0, 1, 2, 3, 4, 5, 6, 7, 8}" by auto
  then show ?thesis
    by (auto simp: modifiers_def ModMaskShift_def ModMaskLock_def ModMaskControl_def
        ModMask1_def ModMask2_def ModMask3_def ModMask4_def ModMask5_def ModMaskAny_def)
qed

text \<open>Keycode 0 on a well-formed map below 256 slots: the row of the first unbound slot.\<close>

lemma modGet_zero_unbound:
  assumes wf: "wf_modmap xu" and short: "length (Keycodes (ModMap xu)) \<le> 255"
    and unbound: "0 \<in> set (Keycodes (ModMap xu))"
  shows "\<exists>j < length (Keycodes (ModMap xu)).
           Keycodes (ModMap xu) ! j = 0 \<and> (\<forall>j' < j. Keycodes (ModMap xu) ! j' \<noteq> 0)
           \<and> modGet xu 0 =
               Some (Inr (modifiers ! (j div unat (KeycodesPerModifier (ModMap xu)))))
           \<and> modifiers ! (j div unat (KeycodesPerModifier (ModMap xu))) \<noteq> 0"
proof -
  let ?ks = "Keycodes (ModMap xu)"
  let ?P = "\<lambda>j. ?ks ! j = 0"
  from unbound obtain m where "m < length ?ks" "?ks ! m = 0"
    by (auto simp: in_set_conv_nth)
  then have "find ?P [0..<length ?ks] \<noteq> None"
    by (auto simp: find_None_iff)
  then obtain j where f: "find ?P [0..<length ?ks] = Some j" by auto
  then obtain i where i: "i < length [0..<length ?ks]" "?P ([0..<length ?ks] ! i)"
      "j = [0..<length ?ks] ! i" "\<forall>i' < i. \<not> ?P ([0..<length ?ks] ! i')"
    unfolding find_Some_iff by blast
  have ji: "j = i" and jl: "j < length ?ks" using i(1,3) by simp_all
  have first: "\<forall>j' < j. ?ks ! j' \<noteq> 0"
  proof (intro allI impI)
    fix j' assume "j' < j"
    then have "j' < i" "j' < length ?ks" using ji jl by simp_all
    with i(4) show "?ks ! j' \<noteq> 0" by auto
  qed
  have "modGet xu 0 = Some (Inr (modifiers ! (j div unat (KeycodesPerModifier (ModMap xu)))))"
    using modGet_first_match [OF wf short, of 0] f
    by (simp add: ModifierForKeyCode_spec_def)
  moreover have "modifiers ! (j div unat (KeycodesPerModifier (ModMap xu))) \<noteq> 0"
    using modifiers_index_row(2) [OF wf jl] by (intro modifiers_nonzero) simp
  ultimately show ?thesis using jl i(2) ji first by auto
qed

lemma wide_no: "\<forall>j < 256. Keycodes (ModMap wide_xu) ! j \<noteq> 9"
proof (intro allI impI)
  fix j :: nat assume "j < 256"
  then show "Keycodes (ModMap wide_xu) ! j \<noteq> 9"
    by (simp add: wide_xu_def)
qed

lemma full_no: "\<forall>j < 256. Keycodes (ModMap full_xu) ! j \<noteq> 0"
proof (intro allI impI)
  fix j :: nat assume "j < 256"
  then show "Keycodes (ModMap full_xu) ! j \<noteq> 0"
    by (simp add: full_xu_def nth_append)
qed

text \<open>
  Claim C5: \<open>modGet\<close> scans the slot table in ascending order and returns, at the first
  slot that holds the keycode, the modifier of the slot's row, and 0 when no slot holds
  the keycode. The lemmas above show this for every well-formed modifier map of at most
  255 slots. It fails from 256 slots on. The modifier map below is well formed (32
  keycodes per modifier, 8 rows, 256 slots) and no slot holds keycode 9, so 0 is to be
  returned; but the byte counter of the loop wraps from 255 to 0 before it can reach the
  length 256, and \<open>modGet\<close> does not return.
\<close>

theorem modGet_wide_no_return:
  "wf_modmap wide_xu \<and> length (Keycodes (ModMap wide_xu)) = 256
   \<and> 9 \<notin> set (Keycodes (ModMap wide_xu))
   \<and> modGet wide_xu 9 = None"
proof -
  have len: "length (Keycodes (ModMap wide_xu)) = 256"
    by (simp add: wide_xu_def)
  then have le: "256 \<le> length (Keycodes (ModMap wide_xu))" by simp
  have wf: "wf_modmap wide_xu"
    by (simp add: wf_modmap_def wide_xu_def)
  have notin: "9 \<notin> set (Keycodes (ModMap wide_xu))"
    by (simp add: wide_xu_def)
  have "modGet wide_xu 9 = None"
    unfolding modGet_def by (rule modGet_loop_wraps [OF le wide_no])
  with wf len notin show ?thesis by simp
qed

text \<open>
  Claim C8: for keycode 0, \<open>modGet\<close> returns the modifier of the row of the first unbound
  slot (lemma \<open>modGet_zero_unbound\<close>, for well-formed maps of at most 255 slots). It fails
  when the first unbound slot lies beyond the first 256 slots, by the same wrap of the
  byte counter: in the well-formed map below (33 keycodes per modifier, 264 slots) the
  slots 0 to 255 are bound and slot 256 is unbound, and \<open>modGet\<close> with keycode 0 does not
  return.
\<close>

theorem modGet_full_no_return:
  "wf_modmap full_xu \<and> length (Keycodes (ModMap full_xu)) = 264
   \<and> Keycodes (ModMap full_xu) ! 256 = 0
   \<and> modGet full_xu 0 = None"
proof -
  have len: "length (Keycodes (ModMap full_xu)) = 264"
    by (simp add: full_xu_def)
  then have le: "256 \<le> length (Keycodes (ModMap full_xu))" by simp
  have wf: "wf_modmap full_xu"
    by (simp add: wf_modmap_def full_xu_def)
  have slot: "Keycodes (ModMap full_xu) ! 256 = 0"
    by (simp add: full_xu_def nth_append)
  have "modGet full_xu 0 = None"
    unfolding modGet_def by (rule modGet_loop_wraps [OF le full_no])
  with wf len slot show ?thesis by simp
qed


section \<open>Properties of XModMap\<close>














end
